theory Spec2Isabelle
  imports Main "HOL-Library.Multiset"
begin

section \<open>The transparent price cache (cache.go)\<close>

text \<open>
  The cache wraps a slow, fallible price service. The embedding follows cache.go:
  \<^item> a price is a \<open>float64\<close> that the code only stores, returns and replaces by the
    literal \<open>0\<close>; it is a type parameter \<open>'p\<close> with a zero;
  \<^item> an \<open>error\<close> is its message, and \<open>nil\<close> is \<open>None\<close>;
  \<^item> a \<open>time.Time\<close> is a reading of the process's monotonic clock in nanoseconds,
    a \<open>time.Duration\<close> a number of nanoseconds;
  \<^item> the price service is an interface: any implementation, with a state of its own
    of type \<open>'s\<close>, that answers a call with a pair \<open>(price, err)\<close>;
  \<^item> what the code reaches outside the cache (the service's state, the clock) is the
    record \<open>world\<close>, which also logs every call made to the service.
\<close>

subsection \<open>Data\<close>

type_synonym error = string

type_synonym ('p, 's) PriceService = "string \<Rightarrow> 's \<Rightarrow> ('p \<times> error option) \<times> 's"

record 'p priceValue =
  Price :: 'p
  CreatedAt :: int

text \<open>The field \<open>Price\<close> of \<open>priceResponse\<close> is \<open>rPrice\<close> here (the name is taken).\<close>

record 'p priceResponse =
  rPrice :: 'p
  Err :: "error option"

text \<open>The mutex carries no data: what it guards is one atomic step of the model.\<close>

record ('p, 's) TransparentCache =
  actualPriceService :: "('p, 's) PriceService"
  maxAge :: int
  prices :: "string \<rightharpoonup> 'p priceValue"

record ('p, 's) world =
  service :: 's
  clock :: int
  invoked :: "(string \<times> 'p \<times> error option) list"

subsection \<open>The clock\<close>

text \<open>
  \<open>time.Since t\<close> is \<open>time.Now().Sub(t)\<close>: the difference of the two readings,
  clamped to the range of an \<open>int64\<close>.
\<close>

definition minDuration :: int where
  "minDuration = - (2 ^ 63)"

definition maxDuration :: int where
  "maxDuration = 2 ^ 63 - 1"

definition time_Since :: "int \<Rightarrow> int \<Rightarrow> int" where
  "time_Since now t = max minDuration (min maxDuration (now - t))"

text \<open>Time passes: the monotonic clock moves forward by \<open>d\<close> nanoseconds.\<close>

definition elapse :: "nat \<Rightarrow> ('p, 's) world \<Rightarrow> ('p, 's) world" where
  "elapse d w = w\<lparr>clock := clock w + int d\<rparr>"

subsection \<open>NewTransparentCache\<close>

definition NewTransparentCache ::
  "('p, 's) PriceService \<Rightarrow> int \<Rightarrow> ('p, 's) TransparentCache" where
  "NewTransparentCache svc age =
     \<lparr>actualPriceService = svc, maxAge = age, prices = Map.empty\<rparr>"

subsection \<open>GetPriceFor\<close>

text \<open>
  Lines 46-51: the read of the map and the freshness test, at clock reading \<open>now\<close>.
  \<open>Some p\<close> is the early return of \<open>p\<close>.
\<close>

definition lookup :: "('p, 's) TransparentCache \<Rightarrow> int \<Rightarrow> string \<Rightarrow> 'p option" where
  "lookup c now itemCode =
     (case prices c itemCode of
        Some v \<Rightarrow> if time_Since now (CreatedAt v) < maxAge c then Some (Price v) else None
      | None \<Rightarrow> None)"

text \<open>Line 52: the call to the service, logged.\<close>

definition call_service ::
  "('p, 's) TransparentCache \<Rightarrow> string \<Rightarrow> ('p, 's) world \<Rightarrow> ('p \<times> error option) \<times> ('p, 's) world" where
  "call_service c itemCode w =
     (case actualPriceService c itemCode (service w) of
        (r, s') \<Rightarrow> (r, w\<lparr>service := s', invoked := invoked w @ [(itemCode, r)]\<rparr>))"

text \<open>Line 54: \<open>fmt.Errorf("getting price from service : %v", err.Error())\<close>.\<close>

definition wrap_error :: "error \<Rightarrow> error" where
  "wrap_error e = ''getting price from service : '' @ e"

text \<open>Lines 56-61: the write under the mutex, at clock reading \<open>now\<close>.\<close>

definition store ::
  "('p, 's) TransparentCache \<Rightarrow> string \<Rightarrow> 'p \<Rightarrow> int \<Rightarrow> ('p, 's) TransparentCache" where
  "store c itemCode price now =
     c\<lparr>prices := (prices c)(itemCode \<mapsto> \<lparr>Price = price, CreatedAt = now\<rparr>)\<rparr>"

text \<open>
  A call of \<open>GetPriceFor\<close> on its own. The three delays are the time that passes
  before the map is read, during the call to the service, and before the write.
  It returns the pair \<open>(price, err)\<close>, the cache and the world.
\<close>

definition GetPriceFor ::
  "('p::zero, 's) TransparentCache \<Rightarrow> nat \<times> nat \<times> nat \<Rightarrow> string \<Rightarrow> ('p, 's) world
     \<Rightarrow> ('p \<times> error option) \<times> ('p, 's) TransparentCache \<times> ('p, 's) world" where
  "GetPriceFor c ds itemCode w =
     (case ds of (d1, d2, d3) \<Rightarrow>
        let w1 = elapse d1 w in
        (case lookup c (clock w1) itemCode of
           Some p \<Rightarrow> ((p, None), c, w1)
         | None \<Rightarrow>
             (case call_service c itemCode (elapse d2 w1) of
                ((price, err), w2) \<Rightarrow>
                  (case err of
                     Some e \<Rightarrow> ((0, Some (wrap_error e)), c, w2)
                   | None \<Rightarrow>
                       let w3 = elapse d3 w2
                       in ((price, None), store c itemCode price (clock w3), w3)))))"

subsection \<open>GetPricesFor\<close>

text \<open>
  A goroutine of \<open>GetPricesFor\<close> runs \<open>GetPriceFor\<close> and sends the result. Between
  its accesses to what the goroutines share (the map, the service, the channel) the
  others may run, so a goroutine is a task that moves in atomic steps:
  \<^item> \<open>Start k\<close>: launched, before the read of the map (line 46);
  \<^item> \<open>Fetch k\<close>: a miss, before the call to the service (line 52);
  \<^item> \<open>Store k p\<close>: the service answered \<open>p\<close>, before the write (lines 56-61);
  \<^item> \<open>Send r\<close>: \<open>GetPriceFor\<close> returned \<open>r\<close>, before the send (line 75);
  \<^item> \<open>Finished r\<close>: \<open>r\<close> is sent and \<open>wg.Done()\<close> called.

  Each access is one step, the steps of the tasks interleave in any order, and every
  step sees what the steps before it wrote. The write of the map is guarded by the
  mutex; the read at line 46 is not, and the model takes it as atomic all the same:
  what the Go runtime does when that read runs into a write is outside the model.
  A call to the service returns: a service that hangs is not modelled.
\<close>

datatype 'p task =
  Start string
| Fetch string
| Store string 'p
| Send "'p priceResponse"
| Finished "'p priceResponse"

text \<open>The channel of the source, \<open>output\<close>, is \<open>chan\<close> here: its name is a keyword.\<close>

record ('p, 's) batch =
  shared :: "('p, 's) TransparentCache"
  env :: "('p, 's) world"
  tasks :: "'p task list"
  chan :: "'p priceResponse list"

text \<open>One atomic step of a task, in a world where the time the event took has passed.\<close>

fun task_step ::
  "'p::zero task \<Rightarrow> ('p, 's) TransparentCache \<Rightarrow> ('p, 's) world \<Rightarrow> 'p priceResponse list
     \<Rightarrow> 'p task \<times> ('p, 's) TransparentCache \<times> ('p, 's) world \<times> 'p priceResponse list" where
  "task_step (Start k) c w out =
     (case lookup c (clock w) k of
        Some p \<Rightarrow> (Send \<lparr>rPrice = p, Err = None\<rparr>, c, w, out)
      | None \<Rightarrow> (Fetch k, c, w, out))"
| "task_step (Fetch k) c w out =
     (case call_service c k w of
        ((price, err), w') \<Rightarrow>
          (case err of
             Some e \<Rightarrow> (Send \<lparr>rPrice = 0, Err = Some (wrap_error e)\<rparr>, c, w', out)
           | None \<Rightarrow> (Store k price, c, w', out)))"
| "task_step (Store k p) c w out =
     (Send \<lparr>rPrice = p, Err = None\<rparr>, store c k p (clock w), w, out)"
| "task_step (Send r) c w out = (Finished r, c, w, out @ [r])"
| "task_step (Finished r) c w out = (Finished r, c, w, out)"

text \<open>
  An event \<open>(i, d)\<close> of a schedule: \<open>d\<close> nanoseconds pass, then task \<open>i\<close> takes its
  next step. An index that names no task only lets the time pass.
\<close>

definition step :: "nat \<times> nat \<Rightarrow> ('p::zero, 's) batch \<Rightarrow> ('p, 's) batch" where
  "step ev b =
     (case ev of (i, d) \<Rightarrow>
        let w = elapse d (env b) in
        if i < length (tasks b) then
          (case task_step (tasks b ! i) (shared b) w (chan b) of
             (t, c, w', out) \<Rightarrow>
               \<lparr>shared = c, env = w', tasks = (tasks b)[i := t], chan = out\<rparr>)
        else b\<lparr>env := w\<rparr>)"

text \<open>Lines 69-85: the channel is made empty and one goroutine is launched per code.\<close>

definition spawn ::
  "('p, 's) TransparentCache \<Rightarrow> string list \<Rightarrow> ('p, 's) world \<Rightarrow> ('p, 's) batch" where
  "spawn c itemCodes w =
     \<lparr>shared = c, env = w, tasks = map Start itemCodes, chan = []\<rparr>"

definition run_batch ::
  "('p::zero, 's) TransparentCache \<Rightarrow> string list \<Rightarrow> (nat \<times> nat) list \<Rightarrow> ('p, 's) world
     \<Rightarrow> ('p, 's) batch" where
  "run_batch c itemCodes sched w = fold step sched (spawn c itemCodes w)"

fun is_Finished :: "'p task \<Rightarrow> bool" where
  "is_Finished (Finished r) = True"
| "is_Finished t = False"

text \<open>\<open>wg.Wait()\<close> returns once every goroutine has called \<open>wg.Done()\<close>.\<close>

definition all_done :: "('p, 's) batch \<Rightarrow> bool" where
  "all_done b = list_all is_Finished (tasks b)"

text \<open>
  Lines 88-97: the loop that receives \<open>n\<close> more results from the channel. A receive
  from an empty channel blocks: the loop does not return, which is \<open>None\<close>.
\<close>

fun collect ::
  "nat \<Rightarrow> 'p priceResponse list \<Rightarrow> 'p list \<Rightarrow> ('p list \<times> error option) option" where
  "collect 0 ch results = Some (results, None)"
| "collect (Suc n) [] results = None"
| "collect (Suc n) (r # ch) results =
     (case Err r of
        Some e \<Rightarrow> Some (results, Some e)
      | None \<Rightarrow> collect n ch (results @ [rPrice r]))"

text \<open>
  \<open>GetPricesFor\<close> under a schedule of its goroutines. While a goroutine has not
  finished when the schedule ends, \<open>wg.Wait()\<close> has not returned: the value is \<open>None\<close>.
\<close>

definition GetPricesFor ::
  "('p::zero, 's) TransparentCache \<Rightarrow> string list \<Rightarrow> (nat \<times> nat) list \<Rightarrow> ('p, 's) world
     \<Rightarrow> (('p list \<times> error option) \<times> ('p, 's) TransparentCache \<times> ('p, 's) world) option" where
  "GetPricesFor c itemCodes sched w =
     (let b = run_batch c itemCodes sched w in
      if all_done b then
        (case collect (length itemCodes) (chan b) [] of
           Some r \<Rightarrow> Some (r, shared b, env b)
         | None \<Rightarrow> None)
      else None)"

text \<open>A schedule is fair to \<open>n\<close> tasks when each of them gets its four steps.\<close>

definition fair :: "nat \<Rightarrow> (nat \<times> nat) list \<Rightarrow> bool" where
  "fair n sched = list_all (\<lambda>i. 4 \<le> count_list (map fst sched) i) [0..<n]"

subsection \<open>Invariants and measures\<close>

text \<open>
  The clock is monotonic and \<open>CreatedAt\<close> is a reading of it: no entry of the map is
  stamped later than the present.
\<close>

definition timestamps_ok :: "('p, 's) TransparentCache \<Rightarrow> ('p, 's) world \<Rightarrow> bool" where
  "timestamps_ok c w \<longleftrightarrow> (\<forall>k v. prices c k = Some v \<longrightarrow> CreatedAt v \<le> clock w)"

text \<open>
  Every entry of the map holds a price that the service answered, without error, to a
  logged call for the entry's code.
\<close>

definition store_inv :: "('p, 's) TransparentCache \<Rightarrow> ('p, 's) world \<Rightarrow> bool" where
  "store_inv c w \<longleftrightarrow> (\<forall>k v. prices c k = Some v \<longrightarrow> (k, Price v, None) \<in> set (invoked w))"

text \<open>
  The same during a batch started with cache \<open>c\<close> in world \<open>w\<close>, for the calls \<open>ys\<close>
  made since: an entry is the one of \<open>c\<close> or holds the price of a successful call of
  \<open>ys\<close>, no key of \<open>c\<close> is lost, and a task about to write holds such a price.
\<close>

definition batch_inv ::
  "('p, 's) TransparentCache \<Rightarrow> ('p, 's) world \<Rightarrow> ('p, 's) batch \<Rightarrow> bool" where
  "batch_inv c w b \<longleftrightarrow>
     (\<exists>ys. invoked (env b) = invoked w @ ys
        \<and> (\<forall>k v. prices (shared b) k = Some v \<longrightarrow>
              prices c k = Some v \<or> (k, Price v, None) \<in> set ys)
        \<and> (\<forall>k. prices c k \<noteq> None \<longrightarrow> prices (shared b) k \<noteq> None)
        \<and> (\<forall>k p. Store k p \<in> set (tasks b) \<longrightarrow> (k, p, None) \<in> set ys))"

text \<open>
  The number of steps a task still has to take, at most.
\<close>

fun rank :: "'p task \<Rightarrow> nat" where
  "rank (Start k) = 4"
| "rank (Fetch k) = 3"
| "rank (Store k p) = 2"
| "rank (Send r) = 1"
| "rank (Finished r) = 0"




subsection \<open>Services, caches and schedules for the examples\<close>

text \<open>
  A service that counts its calls in its state: it fails for \<open>''B''\<close> and answers the
  length of any other code, times ten. The cache in front of it keeps a price for 60
  nanoseconds.
\<close>

definition demo_service :: "(int, nat) PriceService" where
  "demo_service k n =
     (if k = ''B'' then ((7, Some ''no price''), Suc n)
      else ((10 * int (length k), None), Suc n))"

definition demo_world :: "(int, nat) world" where
  "demo_world = \<lparr>service = 0, clock = 1000, invoked = []\<rparr>"

definition demo_cache :: "(int, nat) TransparentCache" where
  "demo_cache = NewTransparentCache demo_service 60"

text \<open>
  The cache and the world after \<open>GetPriceFor ''A''\<close> with delays 1, 2 and 3, and the
  world after \<open>GetPriceFor ''B''\<close> with delays 1 and 2.
\<close>

definition demo_cache_A :: "(int, nat) TransparentCache" where
  "demo_cache_A = store demo_cache ''A'' 10 1006"

definition demo_world_A :: "(int, nat) world" where
  "demo_world_A = \<lparr>service = 1, clock = 1006, invoked = [(''A'', 10, None)]\<rparr>"

definition demo_world_B :: "(int, nat) world" where
  "demo_world_B = \<lparr>service = 1, clock = 1003, invoked = [(''B'', 7, Some ''no price'')]\<rparr>"

text \<open>
  The same service behind a cache with \<open>maxAge = 0\<close>.
\<close>

definition demo_cache_0 :: "(int, nat) TransparentCache" where
  "demo_cache_0 = NewTransparentCache demo_service 0"




text \<open>
  Schedules: three tasks that run one after the other, each event taking a
  nanosecond; two tasks that take their steps in turn; two tasks of which the second
  runs first.
\<close>

definition demo_abc :: "(nat \<times> nat) list" where
  "demo_abc = [(0, 1), (0, 1), (0, 1), (0, 1), (1, 1), (1, 1), (1, 1), (1, 1),
               (2, 1), (2, 1), (2, 1), (2, 1)]"



section \<open>Properties\<close>

subsection \<open>The clock\<close>

lemma time_Since_mono: "t1 \<le> t2 \<Longrightarrow> time_Since t1 t \<le> time_Since t2 t"
  by (simp add: time_Since_def)

lemma time_Since_nonneg: "t \<le> now \<Longrightarrow> 0 \<le> time_Since now t"
  by (simp add: time_Since_def minDuration_def maxDuration_def)

lemma time_Since_elapsed: "time_Since (t + int e) t \<le> int e"
  by (simp add: time_Since_def minDuration_def maxDuration_def)

subsection \<open>The read of the map\<close>

lemma lookup_hit:
  "prices c k = Some v \<Longrightarrow> time_Since now (CreatedAt v) < maxAge c \<Longrightarrow> lookup c now k = Some (Price v)"
  by (simp add: lookup_def)

lemma lookup_miss_iff:
  "lookup c now k = None \<longleftrightarrow>
     (prices c k = None \<or> (\<exists>v. prices c k = Some v \<and> maxAge c \<le> time_Since now (CreatedAt v)))"
  by (auto simp: lookup_def split: option.splits)

lemma lookup_Some_iff:
  "lookup c now k = Some p \<longleftrightarrow>
     (\<exists>v. prices c k = Some v \<and> time_Since now (CreatedAt v) < maxAge c \<and> Price v = p)"
  by (auto simp: lookup_def split: option.splits)

lemma lookup_miss_later:
  "lookup c t1 k = None \<Longrightarrow> t1 \<le> t2 \<Longrightarrow> lookup c t2 k = None"
  unfolding lookup_miss_iff using time_Since_mono [of t1 t2] by (metis order_trans)

lemma lookup_zero:
  "maxAge c = 0 \<Longrightarrow> timestamps_ok c w \<Longrightarrow> lookup c (clock w + int d) k = None"
  unfolding lookup_miss_iff timestamps_ok_def
proof (cases "prices c k")
  case None
  then show "prices c k = None \<or>
    (\<exists>v. prices c k = Some v \<and> maxAge c \<le> time_Since (clock w + int d) (CreatedAt v))"
    by simp
next
  case (Some v)
  assume "maxAge c = 0" and "\<forall>k v. prices c k = Some v \<longrightarrow> CreatedAt v \<le> clock w"
  with Some have "CreatedAt v \<le> clock w" by simp
  then have "CreatedAt v \<le> clock w + int d" by linarith
  then have "0 \<le> time_Since (clock w + int d) (CreatedAt v)" by (rule time_Since_nonneg)
  with Some \<open>maxAge c = 0\<close> show "prices c k = None \<or>
    (\<exists>v. prices c k = Some v \<and> maxAge c \<le> time_Since (clock w + int d) (CreatedAt v))"
    by simp
qed

subsection \<open>The three ways through GetPriceFor\<close>

lemma GetPriceFor_hit:
  "lookup c (clock w + int d1) k = Some p \<Longrightarrow>
     GetPriceFor c (d1, d2, d3) k w = ((p, None), c, elapse d1 w)"
  by (simp add: GetPriceFor_def elapse_def)

lemma GetPriceFor_miss_fail:
  "lookup c (clock w + int d1) k = None \<Longrightarrow>
   actualPriceService c k (service w) = ((price, Some e), s') \<Longrightarrow>
     GetPriceFor c (d1, d2, d3) k w =
       ((0, Some (wrap_error e)), c,
        w\<lparr>service := s', clock := clock w + int d1 + int d2,
          invoked := invoked w @ [(k, price, Some e)]\<rparr>)"
  by (simp add: GetPriceFor_def elapse_def call_service_def)

lemma GetPriceFor_miss_ok:
  "lookup c (clock w + int d1) k = None \<Longrightarrow>
   actualPriceService c k (service w) = ((price, None), s') \<Longrightarrow>
     GetPriceFor c (d1, d2, d3) k w =
       ((price, None),
        c\<lparr>prices := (prices c)(k \<mapsto> \<lparr>Price = price, CreatedAt = clock w + int d1 + int d2 + int d3\<rparr>)\<rparr>,
        w\<lparr>service := s', clock := clock w + int d1 + int d2 + int d3,
          invoked := invoked w @ [(k, price, None)]\<rparr>)"
  by (simp add: GetPriceFor_def elapse_def call_service_def store_def)

lemma GetPriceFor_cases:
  obtains (hit) p where "lookup c (clock w + int d1) k = Some p"
      "GetPriceFor c (d1, d2, d3) k w = ((p, None), c, elapse d1 w)"
  | (fail) price e s' where "lookup c (clock w + int d1) k = None"
      "actualPriceService c k (service w) = ((price, Some e), s')"
      "GetPriceFor c (d1, d2, d3) k w =
         ((0, Some (wrap_error e)), c,
          w\<lparr>service := s', clock := clock w + int d1 + int d2,
            invoked := invoked w @ [(k, price, Some e)]\<rparr>)"
  | (ok) price s' where "lookup c (clock w + int d1) k = None"
      "actualPriceService c k (service w) = ((price, None), s')"
      "GetPriceFor c (d1, d2, d3) k w =
         ((price, None),
          c\<lparr>prices := (prices c)(k \<mapsto> \<lparr>Price = price, CreatedAt = clock w + int d1 + int d2 + int d3\<rparr>)\<rparr>,
          w\<lparr>service := s', clock := clock w + int d1 + int d2 + int d3,
            invoked := invoked w @ [(k, price, None)]\<rparr>)"
proof (cases "lookup c (clock w + int d1) k")
  case (Some p)
  show ?thesis by (rule hit [OF Some GetPriceFor_hit [OF Some]])
next
  case None
  obtain price err s' where svc: "actualPriceService c k (service w) = ((price, err), s')"
    by (cases "actualPriceService c k (service w)") auto
  show ?thesis
  proof (cases err)
    case N: None
    show ?thesis
      by (rule ok [OF None svc [unfolded N] GetPriceFor_miss_ok [OF None svc [unfolded N]]])
  next
    case (Some e)
    show ?thesis
      by (rule fail [OF None svc [unfolded Some] GetPriceFor_miss_fail [OF None svc [unfolded Some]]])
  qed
qed

lemma GetPriceFor_miss_invoked:
  assumes "lookup c (clock w + int d1) k = None"
  shows "invoked (snd (snd (GetPriceFor c (d1, d2, d3) k w)))
       = invoked w @ [(k, fst (actualPriceService c k (service w)))]"
proof (cases rule: GetPriceFor_cases [of c w d1 k d2 d3])
  case (hit p)
  with assms show ?thesis by simp
next
  case (fail price e s')
  then show ?thesis by simp
next
  case (ok price s')
  then show ?thesis by simp
qed

lemma GetPriceFor_config:
  assumes "GetPriceFor c ds k w = (r, c', w')"
  shows "maxAge c' = maxAge c \<and> actualPriceService c' = actualPriceService c"
proof -
  obtain d1 d2 d3 where ds: "ds = (d1, d2, d3)" by (metis prod_cases3)
  show ?thesis
  proof (cases rule: GetPriceFor_cases [of c w d1 k d2 d3])
    case (hit p)
    with assms ds show ?thesis by simp
  next
    case (fail price e s')
    with assms ds show ?thesis by simp
  next
    case (ok price s')
    with assms ds show ?thesis by auto
  qed
qed

lemma GetPriceFor_clock_mono:
  assumes "GetPriceFor c ds k w = (r, c', w')"
  shows "clock w \<le> clock w'"
proof -
  obtain d1 d2 d3 where ds: "ds = (d1, d2, d3)" by (metis prod_cases3)
  show ?thesis
  proof (cases rule: GetPriceFor_cases [of c w d1 k d2 d3])
    case (hit p)
    with assms ds show ?thesis by (auto simp: elapse_def)
  next
    case (fail price e s')
    with assms ds show ?thesis by auto
  next
    case (ok price s')
    with assms ds show ?thesis by auto
  qed
qed

lemma GetPriceFor_timestamps_ok:
  assumes ts: "timestamps_ok c w" and g: "GetPriceFor c ds k w = (r, c', w')"
  shows "timestamps_ok c' w'"
  unfolding timestamps_ok_def
proof (intro allI impI)
  fix k' v
  assume e: "prices c' k' = Some v"
  obtain d1 d2 d3 where ds: "ds = (d1, d2, d3)" by (metis prod_cases3)
  have mono: "clock w \<le> clock w'" using g by (rule GetPriceFor_clock_mono)
  show "CreatedAt v \<le> clock w'"
  proof (cases rule: GetPriceFor_cases [of c w d1 k d2 d3])
    case (hit p)
    with g ds e have "prices c k' = Some v" by simp
    with ts have "CreatedAt v \<le> clock w" by (simp add: timestamps_ok_def)
    with mono show ?thesis by simp
  next
    case (fail price e' s')
    with g ds e have "prices c k' = Some v" by simp
    with ts have "CreatedAt v \<le> clock w" by (simp add: timestamps_ok_def)
    with mono show ?thesis by simp
  next
    case (ok price s')
    show ?thesis
    proof (cases "k' = k")
      case True
      with ok g ds e show ?thesis by auto
    next
      case False
      with ok g ds e have "prices c k' = Some v" by auto
      with ts have "CreatedAt v \<le> clock w" by (simp add: timestamps_ok_def)
      with mono show ?thesis by simp
    qed
  qed
qed

lemma twice_within_maxAge:
  assumes miss: "prices c k = None \<or>
        (\<exists>v. prices c k = Some v \<and> maxAge c \<le> time_Since (clock w + int d1) (CreatedAt v))"
    and svc: "actualPriceService c k (service w) = ((p, None), s')"
    and e1: "int e1 < maxAge c"
  shows "\<exists>c' w'. GetPriceFor c (d1, d2, d3) k w = ((p, None), c', w')
           \<and> GetPriceFor c' (e1, e2, e3) k w' = ((p, None), c', elapse e1 w')
           \<and> invoked (elapse e1 w') = invoked w @ [(k, p, None)]"
proof -
  let ?t = "clock w + int d1 + int d2 + int d3"
  let ?c' = "c\<lparr>prices := (prices c)(k \<mapsto> \<lparr>Price = p, CreatedAt = ?t\<rparr>)\<rparr>"
  let ?w' = "w\<lparr>service := s', clock := ?t, invoked := invoked w @ [(k, p, None)]\<rparr>"
  from miss have l: "lookup c (clock w + int d1) k = None" by (simp add: lookup_miss_iff)
  have one: "GetPriceFor c (d1, d2, d3) k w = ((p, None), ?c', ?w')"
    by (rule GetPriceFor_miss_ok [OF l svc])
  have "time_Since (?t + int e1) ?t < maxAge c"
    using time_Since_elapsed [of ?t e1] e1 by linarith
  then have "lookup ?c' (clock ?w' + int e1) k = Some p" by (simp add: lookup_def)
  then have two: "GetPriceFor ?c' (e1, e2, e3) k ?w' = ((p, None), ?c', elapse e1 ?w')"
    by (rule GetPriceFor_hit)
  have "invoked (elapse e1 ?w') = invoked w @ [(k, p, None)]" by (simp add: elapse_def)
  with one two show ?thesis by blast
qed

subsection \<open>The examples\<close>

lemmas demo_defs = demo_cache_def demo_cache_A_def demo_world_A_def demo_world_def
  demo_service_def NewTransparentCache_def

lemma demo_first_call:
  "GetPriceFor demo_cache (1, 2, 3) ''A'' demo_world = ((10, None), demo_cache_A, demo_world_A)"
  by (simp add: demo_defs GetPriceFor_def lookup_def call_service_def elapse_def store_def)

subsection \<open>Claims about GetPriceFor and NewTransparentCache\<close>

text \<open>
  Claim C1. When the map holds an entry for \<open>k\<close> whose age at the read is below
  \<open>maxAge\<close>, \<open>GetPriceFor k\<close> returns the entry's price and no error; the cache, the
  service and the log of calls are as before. Hence, after a call that returned a
  price \<open>p\<close>, a second call that finds the entry of \<open>k\<close> still fresh returns \<open>p\<close>
  again without a call to the service, and both calls together made at most one.
  In particular, when the first call misses and the service answers \<open>q\<close>, a second
  call less than \<open>maxAge\<close> after the write returns \<open>q\<close> and the service was called
  once in all.
\<close>

theorem C1_fresh_entry_is_served:
  "(prices c k = Some v \<and> time_Since (clock w + int d1) (CreatedAt v) < maxAge c \<longrightarrow>
      GetPriceFor c (d1, d2, d3) k w = ((Price v, None), c, elapse d1 w)
      \<and> invoked (elapse d1 w) = invoked w \<and> service (elapse d1 w) = service w)
   \<and> (GetPriceFor c (d1, d2, d3) k w = ((p, None), c', w')
       \<and> prices c' k = Some v' \<and> time_Since (clock w' + int e1) (CreatedAt v') < maxAge c' \<longrightarrow>
      GetPriceFor c' (e1, e2, e3) k w' = ((p, None), c', elapse e1 w')
      \<and> invoked (elapse e1 w') = invoked w'
      \<and> (invoked w' = invoked w \<or> (\<exists>r. invoked w' = invoked w @ [(k, r)])))
   \<and> ((prices c k = None \<or>
         (\<exists>u. prices c k = Some u \<and> maxAge c \<le> time_Since (clock w + int d1) (CreatedAt u)))
       \<and> actualPriceService c k (service w) = ((q, None), s') \<and> int e1 < maxAge c \<longrightarrow>
      (\<exists>c1 w1. GetPriceFor c (d1, d2, d3) k w = ((q, None), c1, w1)
          \<and> GetPriceFor c1 (e1, e2, e3) k w1 = ((q, None), c1, elapse e1 w1)
          \<and> invoked (elapse e1 w1) = invoked w @ [(k, q, None)]))"
proof (intro conjI impI)
  assume h: "prices c k = Some v \<and> time_Since (clock w + int d1) (CreatedAt v) < maxAge c"
  then show "GetPriceFor c (d1, d2, d3) k w = ((Price v, None), c, elapse d1 w)"
    by (simp add: GetPriceFor_hit lookup_hit)
next
  show "invoked (elapse d1 w) = invoked w" by (simp add: elapse_def)
next
  show "service (elapse d1 w) = service w" by (simp add: elapse_def)
next
  assume h: "GetPriceFor c (d1, d2, d3) k w = ((p, None), c', w')
       \<and> prices c' k = Some v' \<and> time_Since (clock w' + int e1) (CreatedAt v') < maxAge c'"
  have pv: "Price v' = p"
  proof (cases rule: GetPriceFor_cases [of c w d1 k d2 d3])
    case (hit q)
    with h show ?thesis by (auto simp: lookup_Some_iff)
  next
    case (fail price e s')
    with h show ?thesis by simp
  next
    case (ok price s')
    with h show ?thesis by auto
  qed
  with h show "GetPriceFor c' (e1, e2, e3) k w' = ((p, None), c', elapse e1 w')"
    using GetPriceFor_hit [of c' w' e1 k p e2 e3] lookup_hit [of c' k v' "clock w' + int e1"]
    by simp
next
  show "invoked (elapse e1 w') = invoked w'" by (simp add: elapse_def)
next
  assume h: "GetPriceFor c (d1, d2, d3) k w = ((p, None), c', w')
       \<and> prices c' k = Some v' \<and> time_Since (clock w' + int e1) (CreatedAt v') < maxAge c'"
  show "invoked w' = invoked w \<or> (\<exists>r. invoked w' = invoked w @ [(k, r)])"
  proof (cases rule: GetPriceFor_cases [of c w d1 k d2 d3])
    case (hit q)
    with h show ?thesis by (auto simp: elapse_def)
  next
    case (fail price e s')
    with h show ?thesis by simp
  next
    case (ok price s')
    with h show ?thesis by auto
  qed
next
  assume "(prices c k = None \<or>
         (\<exists>u. prices c k = Some u \<and> maxAge c \<le> time_Since (clock w + int d1) (CreatedAt u)))
       \<and> actualPriceService c k (service w) = ((q, None), s') \<and> int e1 < maxAge c"
  then show "\<exists>c1 w1. GetPriceFor c (d1, d2, d3) k w = ((q, None), c1, w1)
          \<and> GetPriceFor c1 (e1, e2, e3) k w1 = ((q, None), c1, elapse e1 w1)
          \<and> invoked (elapse e1 w1) = invoked w @ [(k, q, None)]"
    using twice_within_maxAge [of c k w d1 q s' e1 d2 d3 e2 e3] by simp
qed

theorem C1_fresh_entry_is_served_witness:
  "prices demo_cache_A ''A'' = Some \<lparr>Price = 10, CreatedAt = 1006\<rparr>
   \<and> time_Since (clock demo_world_A + int 4) 1006 < maxAge demo_cache_A
   \<and> GetPriceFor demo_cache_A (4, 5, 6) ''A'' demo_world_A
       = ((10, None), demo_cache_A, elapse 4 demo_world_A)
   \<and> prices demo_cache ''A'' = None
   \<and> actualPriceService demo_cache ''A'' (service demo_world) = ((10, None), 1)
   \<and> int 4 < maxAge demo_cache
   \<and> GetPriceFor demo_cache (1, 2, 3) ''A'' demo_world = ((10, None), demo_cache_A, demo_world_A)
   \<and> invoked (elapse 4 demo_world_A) = invoked demo_world @ [(''A'', 10, None)]"
proof -
  have e: "prices demo_cache_A ''A'' = Some \<lparr>Price = 10, CreatedAt = 1006\<rparr>"
    by (simp add: demo_defs store_def)
  have f: "time_Since (clock demo_world_A + int 4) (CreatedAt \<lparr>Price = 10::int, CreatedAt = 1006\<rparr>)
             < maxAge demo_cache_A"
    by (simp add: demo_defs store_def time_Since_def minDuration_def maxDuration_def)
  have hit: "GetPriceFor demo_cache_A (4, 5, 6) ''A'' demo_world_A
       = ((10, None), demo_cache_A, elapse 4 demo_world_A)"
    using C1_fresh_entry_is_served [where c = demo_cache_A and k = "''A''" and w = demo_world_A
        and v = "\<lparr>Price = 10, CreatedAt = 1006\<rparr>" and ?d1.0 = 4 and ?d2.0 = 5 and ?d3.0 = 6]
      e f
    by simp
  have n: "prices demo_cache ''A'' = None" by (simp add: demo_defs)
  have s: "actualPriceService demo_cache ''A'' (service demo_world) = ((10, None), 1)"
    by (simp add: demo_defs)
  have m: "int 4 < maxAge demo_cache" by (simp add: demo_defs)
  note second = C1_fresh_entry_is_served [where c = demo_cache and k = "''A''" and w = demo_world
        and ?d1.0 = 1 and ?d2.0 = 2 and ?d3.0 = 3 and p = 10 and c' = demo_cache_A
        and w' = demo_world_A and v' = "\<lparr>Price = 10, CreatedAt = 1006\<rparr>"
        and ?e1.0 = 4 and ?e2.0 = 5 and ?e3.0 = 6 and q = 10 and s' = 1]
  from second n s m obtain c1 w1 where
    both: "GetPriceFor demo_cache (1, 2, 3) ''A'' demo_world = ((10, None), c1, w1)"
      "GetPriceFor c1 (4, 5, 6) ''A'' w1 = ((10, None), c1, elapse 4 w1)"
      "invoked (elapse 4 w1) = invoked demo_world @ [(''A'', 10, None)]"
    by blast
  from both(1) demo_first_call have "c1 = demo_cache_A" "w1 = demo_world_A" by simp_all
  with both have i: "invoked (elapse 4 demo_world_A) = invoked demo_world @ [(''A'', 10, None)]"
    by simp
  from second demo_first_call e f
  have "GetPriceFor demo_cache_A (4, 5, 6) ''A'' demo_world_A
       = ((10, None), demo_cache_A, elapse 4 demo_world_A)" by simp
  with e f n s m i demo_first_call show ?thesis by simp
qed

text \<open>
  Claim C2. When \<open>k\<close> is absent from the map, or its entry's age is at least
  \<open>maxAge\<close>, \<open>GetPriceFor k\<close> calls the service exactly once. When the service answers
  without error, the entry of \<open>k\<close> is replaced by the answered price and the reading of
  the clock at the write, and the price is returned with no error.
\<close>

theorem C2_miss_fetches_and_stores:
  assumes miss: "prices c k = None \<or>
        (\<exists>v. prices c k = Some v \<and> maxAge c \<le> time_Since (clock w + int d1) (CreatedAt v))"
    and svc: "actualPriceService c k (service w) = ((price, err), s')"
  shows "invoked (snd (snd (GetPriceFor c (d1, d2, d3) k w))) = invoked w @ [(k, price, err)]
    \<and> service (snd (snd (GetPriceFor c (d1, d2, d3) k w))) = s'
    \<and> (err = None \<longrightarrow>
         GetPriceFor c (d1, d2, d3) k w =
           ((price, None),
            c\<lparr>prices := (prices c)(k \<mapsto>
                 \<lparr>Price = price, CreatedAt = clock w + int d1 + int d2 + int d3\<rparr>)\<rparr>,
            w\<lparr>service := s', clock := clock w + int d1 + int d2 + int d3,
              invoked := invoked w @ [(k, price, None)]\<rparr>))"
proof -
  from miss have l: "lookup c (clock w + int d1) k = None"
    by (simp add: lookup_miss_iff)
  show ?thesis
  proof (cases err)
    case None
    with l svc show ?thesis by (simp add: GetPriceFor_miss_ok)
  next
    case (Some e)
    with l svc show ?thesis by (simp add: GetPriceFor_miss_fail)
  qed
qed

theorem C2_miss_fetches_and_stores_witness:
  "GetPriceFor demo_cache (1, 2, 3) ''A'' demo_world
     = ((10, None), demo_cache_A, demo_world_A)
   \<and> prices demo_cache ''A'' = None \<and> demo_service ''A'' 0 = ((10, None), 1)"
proof -
  have a: "prices demo_cache ''A'' = None" by (simp add: demo_defs)
  have b: "actualPriceService demo_cache ''A'' (service demo_world) = ((10, None), 1)"
    by (simp add: demo_defs)
  show ?thesis
    using C2_miss_fetches_and_stores [OF disjI1 [OF a] b, of 1 2 3] a b
    by (simp add: demo_defs store_def)
qed

text \<open>
  Claim C3. When the call to the service fails, \<open>GetPriceFor k\<close> returns the price
  zero and the service's message behind the prefix \<open>getting price from service : \<close>;
  the cache is as before. A later \<open>GetPriceFor k\<close> calls the service again.
\<close>

theorem C3_failure_is_not_cached:
  assumes miss: "prices c k = None \<or>
        (\<exists>v. prices c k = Some v \<and> maxAge c \<le> time_Since (clock w + int d1) (CreatedAt v))"
    and svc: "actualPriceService c k (service w) = ((price, Some e), s')"
    and w': "w' = w\<lparr>service := s', clock := clock w + int d1 + int d2,
                    invoked := invoked w @ [(k, price, Some e)]\<rparr>"
  shows "GetPriceFor c (d1, d2, d3) k w = ((0, Some (''getting price from service : '' @ e)), c, w')
    \<and> invoked (snd (snd (GetPriceFor c (e1, e2, e3) k w')))
        = invoked w' @ [(k, fst (actualPriceService c k s'))]"
proof -
  from miss have l: "lookup c (clock w + int d1) k = None"
    by (simp add: lookup_miss_iff)
  have first: "GetPriceFor c (d1, d2, d3) k w = ((0, Some (wrap_error e)), c, w')"
    using l svc w' by (simp add: GetPriceFor_miss_fail)
  have l': "lookup c (clock w' + int e1) k = None"
    using lookup_miss_later [OF l, of "clock w' + int e1"] w' by simp
  obtain r s'' where svc': "actualPriceService c k s' = (r, s'')"
    by (cases "actualPriceService c k s'") auto
  have "invoked (snd (snd (GetPriceFor c (e1, e2, e3) k w'))) = invoked w' @ [(k, r)]"
    using l' svc' w'
    by (auto simp: GetPriceFor_def elapse_def call_service_def split: option.splits prod.splits)
  with first svc' show ?thesis by (simp add: wrap_error_def)
qed

theorem C3_failure_is_not_cached_witness:
  "GetPriceFor demo_cache (1, 2, 3) ''B'' demo_world
     = ((0, Some ''getting price from service : no price''), demo_cache, demo_world_B)
   \<and> invoked (snd (snd (GetPriceFor demo_cache (4, 5, 6) ''B'' demo_world_B)))
       = [(''B'', 7, Some ''no price''), (''B'', 7, Some ''no price'')]"
proof -
  have a: "prices demo_cache ''B'' = None" by (simp add: demo_defs)
  have b: "actualPriceService demo_cache ''B'' (service demo_world) = ((7, Some ''no price''), 1)"
    by (simp add: demo_defs)
  have c: "demo_world_B = demo_world\<lparr>service := 1, clock := clock demo_world + int 1 + int 2,
                    invoked := invoked demo_world @ [(''B'', 7, Some ''no price'')]\<rparr>"
    by (simp add: demo_defs demo_world_B_def)
  show ?thesis
    using C3_failure_is_not_cached [OF disjI1 [OF a] b c, of 3 4 5 6]
    by (simp add: demo_defs demo_world_B_def)
qed

text \<open>
  Claim C6. With \<open>maxAge = 0\<close> no entry is ever fresh: each of two calls of
  \<open>GetPriceFor k\<close> in a row calls the service, whatever the map holds (its entries
  were written at readings of the monotonic clock, so none is from the future).
\<close>

theorem C6_zero_maxAge_always_fetches:
  assumes zero: "maxAge c = 0" and ts: "timestamps_ok c w"
    and one: "GetPriceFor c (d1, d2, d3) k w = (r1, c1, w1)"
    and two: "GetPriceFor c1 (e1, e2, e3) k w1 = (r2, c2, w2)"
  shows "invoked w1 = invoked w @ [(k, fst (actualPriceService c k (service w)))]
    \<and> invoked w2 = invoked w1 @ [(k, fst (actualPriceService c k (service w1)))]"
proof -
  have l1: "lookup c (clock w + int d1) k = None"
    using zero ts by (simp add: lookup_zero)
  have inv1: "invoked w1 = invoked w @ [(k, fst (actualPriceService c k (service w)))]"
    using GetPriceFor_miss_invoked [OF l1, of d2 d3] unfolding one by simp
  have c1: "maxAge c1 = 0" "actualPriceService c1 = actualPriceService c"
    using GetPriceFor_config [OF one] zero by simp_all
  have ts1: "timestamps_ok c1 w1"
    using GetPriceFor_timestamps_ok [OF ts one] .
  have l2: "lookup c1 (clock w1 + int e1) k = None"
    using c1 ts1 by (simp add: lookup_zero)
  have "invoked w2 = invoked w1 @ [(k, fst (actualPriceService c1 k (service w1)))]"
    using GetPriceFor_miss_invoked [OF l2, of e2 e3] unfolding two by simp
  with inv1 c1 show ?thesis by simp
qed

theorem C6_zero_maxAge_always_fetches_witness:
  "maxAge demo_cache_0 = 0
   \<and> invoked (snd (snd (GetPriceFor demo_cache_0 (0, 0, 0) ''A'' demo_world))) = [(''A'', 10, None)]
   \<and> invoked (snd (snd (GetPriceFor
         (fst (snd (GetPriceFor demo_cache_0 (0, 0, 0) ''A'' demo_world))) (0, 0, 0) ''A''
         (snd (snd (GetPriceFor demo_cache_0 (0, 0, 0) ''A'' demo_world))))))
       = [(''A'', 10, None), (''A'', 10, None)]"
proof -
  have z: "maxAge demo_cache_0 = 0" by (simp add: demo_cache_0_def NewTransparentCache_def)
  have t: "timestamps_ok demo_cache_0 demo_world"
    by (simp add: timestamps_ok_def demo_cache_0_def NewTransparentCache_def)
  obtain r1 c1 w1 where one: "GetPriceFor demo_cache_0 (0, 0, 0) ''A'' demo_world = (r1, c1, w1)"
    by (cases "GetPriceFor demo_cache_0 (0, 0, 0) ''A'' demo_world") auto
  obtain r2 c2 w2 where two: "GetPriceFor c1 (0, 0, 0) ''A'' w1 = (r2, c2, w2)"
    by (cases "GetPriceFor c1 (0, 0, 0) ''A'' w1") auto
  have s1: "service w1 = 1"
    using one
    by (auto simp: demo_cache_0_def demo_defs GetPriceFor_def lookup_def call_service_def
        elapse_def store_def)
  show ?thesis
    using C6_zero_maxAge_always_fetches [OF z t one two] z one two s1
    by (simp add: demo_cache_0_def demo_defs)
qed

text \<open>
  Claim C9. \<open>NewTransparentCache\<close> returns a cache with the given service and
  \<open>maxAge\<close> and an empty map; it is a function of its arguments alone. The first
  \<open>GetPriceFor k\<close> on it calls the service.
\<close>

theorem C9_new_cache_is_empty:
  "prices (NewTransparentCache svc age) = Map.empty
   \<and> actualPriceService (NewTransparentCache svc age) = svc
   \<and> maxAge (NewTransparentCache svc age) = age
   \<and> invoked (snd (snd (GetPriceFor (NewTransparentCache svc age) (d1, d2, d3) k w)))
       = invoked w @ [(k, fst (svc k (service w)))]"
  by (cases "svc k (service w)")
     (auto simp: NewTransparentCache_def GetPriceFor_def lookup_def call_service_def elapse_def
           split: option.splits prod.splits)

subsection \<open>The steps of a task\<close>

lemma step_idle:
  "\<not> i < length (tasks b) \<Longrightarrow> step (i, d) b = b\<lparr>env := elapse d (env b)\<rparr>"
  by (simp add: step_def)

lemma step_hit:
  "i < length (tasks b) \<Longrightarrow> tasks b ! i = Start k \<Longrightarrow>
   lookup (shared b) (clock (env b) + int d) k = Some p \<Longrightarrow>
     step (i, d) b =
       b\<lparr>env := elapse d (env b), tasks := (tasks b)[i := Send \<lparr>rPrice = p, Err = None\<rparr>]\<rparr>"
  by (simp add: step_def elapse_def)

lemma step_miss:
  "i < length (tasks b) \<Longrightarrow> tasks b ! i = Start k \<Longrightarrow>
   lookup (shared b) (clock (env b) + int d) k = None \<Longrightarrow>
     step (i, d) b = b\<lparr>env := elapse d (env b), tasks := (tasks b)[i := Fetch k]\<rparr>"
  by (simp add: step_def elapse_def)

lemma step_fail:
  "i < length (tasks b) \<Longrightarrow> tasks b ! i = Fetch k \<Longrightarrow>
   actualPriceService (shared b) k (service (env b)) = ((price, Some e), s') \<Longrightarrow>
     step (i, d) b =
       b\<lparr>env := (env b)\<lparr>service := s', clock := clock (env b) + int d,
                       invoked := invoked (env b) @ [(k, price, Some e)]\<rparr>,
         tasks := (tasks b)[i := Send \<lparr>rPrice = 0, Err = Some (wrap_error e)\<rparr>]\<rparr>"
  by (simp add: step_def elapse_def call_service_def)

lemma step_ok:
  "i < length (tasks b) \<Longrightarrow> tasks b ! i = Fetch k \<Longrightarrow>
   actualPriceService (shared b) k (service (env b)) = ((price, None), s') \<Longrightarrow>
     step (i, d) b =
       b\<lparr>env := (env b)\<lparr>service := s', clock := clock (env b) + int d,
                       invoked := invoked (env b) @ [(k, price, None)]\<rparr>,
         tasks := (tasks b)[i := Store k price]\<rparr>"
  by (simp add: step_def elapse_def call_service_def)

lemma step_store:
  "i < length (tasks b) \<Longrightarrow> tasks b ! i = Store k p \<Longrightarrow>
     step (i, d) b =
       b\<lparr>shared := store (shared b) k p (clock (env b) + int d), env := elapse d (env b),
         tasks := (tasks b)[i := Send \<lparr>rPrice = p, Err = None\<rparr>]\<rparr>"
  by (simp add: step_def elapse_def)

lemma step_send:
  "i < length (tasks b) \<Longrightarrow> tasks b ! i = Send r \<Longrightarrow>
     step (i, d) b =
       b\<lparr>env := elapse d (env b), tasks := (tasks b)[i := Finished r], chan := chan b @ [r]\<rparr>"
  by (simp add: step_def elapse_def)

lemma step_finished:
  "i < length (tasks b) \<Longrightarrow> tasks b ! i = Finished r \<Longrightarrow>
     step (i, d) b = b\<lparr>env := elapse d (env b)\<rparr>"
  by (simp add: step_def elapse_def list_update_same_conv)

lemma step_cases [case_names idle hit miss fail ok store send finished]:
  obtains
    (idle) "\<not> i < length (tasks b)" "step (i, d) b = b\<lparr>env := elapse d (env b)\<rparr>"
  | (hit) k p where "i < length (tasks b)" "tasks b ! i = Start k"
      "lookup (shared b) (clock (env b) + int d) k = Some p"
      "step (i, d) b =
         b\<lparr>env := elapse d (env b), tasks := (tasks b)[i := Send \<lparr>rPrice = p, Err = None\<rparr>]\<rparr>"
  | (miss) k where "i < length (tasks b)" "tasks b ! i = Start k"
      "lookup (shared b) (clock (env b) + int d) k = None"
      "step (i, d) b = b\<lparr>env := elapse d (env b), tasks := (tasks b)[i := Fetch k]\<rparr>"
  | (fail) k price e s' where "i < length (tasks b)" "tasks b ! i = Fetch k"
      "actualPriceService (shared b) k (service (env b)) = ((price, Some e), s')"
      "step (i, d) b =
         b\<lparr>env := (env b)\<lparr>service := s', clock := clock (env b) + int d,
                         invoked := invoked (env b) @ [(k, price, Some e)]\<rparr>,
           tasks := (tasks b)[i := Send \<lparr>rPrice = 0, Err = Some (wrap_error e)\<rparr>]\<rparr>"
  | (ok) k price s' where "i < length (tasks b)" "tasks b ! i = Fetch k"
      "actualPriceService (shared b) k (service (env b)) = ((price, None), s')"
      "step (i, d) b =
         b\<lparr>env := (env b)\<lparr>service := s', clock := clock (env b) + int d,
                         invoked := invoked (env b) @ [(k, price, None)]\<rparr>,
           tasks := (tasks b)[i := Store k price]\<rparr>"
  | (store) k p where "i < length (tasks b)" "tasks b ! i = Store k p"
      "step (i, d) b =
         b\<lparr>shared := store (shared b) k p (clock (env b) + int d), env := elapse d (env b),
           tasks := (tasks b)[i := Send \<lparr>rPrice = p, Err = None\<rparr>]\<rparr>"
  | (send) r where "i < length (tasks b)" "tasks b ! i = Send r"
      "step (i, d) b =
         b\<lparr>env := elapse d (env b), tasks := (tasks b)[i := Finished r], chan := chan b @ [r]\<rparr>"
  | (finished) r where "i < length (tasks b)" "tasks b ! i = Finished r"
      "step (i, d) b = b\<lparr>env := elapse d (env b)\<rparr>"
proof (cases "i < length (tasks b)")
  case False
  show ?thesis by (rule idle [OF False step_idle [OF False]])
next
  case True
  show ?thesis
  proof (cases "tasks b ! i")
    case (Start k)
    show ?thesis
    proof (cases "lookup (shared b) (clock (env b) + int d) k")
      case None
      show ?thesis by (rule miss [OF True Start None step_miss [OF True Start None]])
    next
      case (Some p)
      show ?thesis by (rule hit [OF True Start Some step_hit [OF True Start Some]])
    qed
  next
    case (Fetch k)
    obtain price err s' where
      svc: "actualPriceService (shared b) k (service (env b)) = ((price, err), s')"
      by (cases "actualPriceService (shared b) k (service (env b))") auto
    show ?thesis
    proof (cases err)
      case None
      show ?thesis
        by (rule ok [OF True Fetch svc [unfolded None] step_ok [OF True Fetch svc [unfolded None]]])
    next
      case (Some e)
      show ?thesis
        by (rule fail [OF True Fetch svc [unfolded Some]
              step_fail [OF True Fetch svc [unfolded Some]]])
    qed
  next
    case (Store k p)
    show ?thesis by (rule store [OF True Store step_store [OF True Store]])
  next
    case (Send r)
    show ?thesis by (rule send [OF True Send step_send [OF True Send]])
  next
    case (Finished r)
    show ?thesis by (rule finished [OF True Finished step_finished [OF True Finished]])
  qed
qed

subsection \<open>Invariants of a run\<close>

lemma fold_step_invariant:
  assumes "I b" and "\<And>i d b. I b \<Longrightarrow> I (step (i, d) b)"
  shows "I (fold step sched b)"
  using assms(1) by (induction sched arbitrary: b) (auto simp: assms(2))

lemma step_length: "length (tasks (step (i, d) b)) = length (tasks b)"
  by (cases rule: step_cases [of i b d]) simp_all

lemma run_batch_length: "length (tasks (run_batch c codes sched w)) = length codes"
proof -
  have "length (tasks (fold step sched (spawn c codes w))) = length codes"
    by (rule fold_step_invariant) (simp_all add: spawn_def step_length)
  then show ?thesis by (simp add: run_batch_def)
qed

lemma step_other: "j \<noteq> i \<Longrightarrow> tasks (step (i, d) b) ! j = tasks b ! j"
  by (cases rule: step_cases [of i b d]) simp_all

lemma step_rank:
  "i < length (tasks b) \<Longrightarrow> rank (tasks (step (i, d) b) ! i) \<le> rank (tasks b ! i) - 1"
  by (cases rule: step_cases [of i b d]) simp_all

lemma fold_step_rank:
  "j < length (tasks b) \<Longrightarrow>
     rank (tasks (fold step sched b) ! j) \<le> rank (tasks b ! j) - count_list (map fst sched) j"
proof (induction sched arbitrary: b)
  case Nil
  then show ?case by simp
next
  case (Cons ev sched)
  obtain i d where ev: "ev = (i, d)" by (cases ev) auto
  have len: "j < length (tasks (step ev b))" using Cons.prems by (simp add: ev step_length)
  have ih: "rank (tasks (fold step sched (step ev b)) ! j)
      \<le> rank (tasks (step ev b) ! j) - count_list (map fst sched) j"
    by (rule Cons.IH [OF len])
  show ?case
  proof (cases "i = j")
    case True
    have "rank (tasks (step ev b) ! j) \<le> rank (tasks b ! j) - 1"
      using step_rank [of j b d] Cons.prems ev True by simp
    with ih ev True show ?thesis by simp
  next
    case False
    then have "tasks (step ev b) ! j = tasks b ! j" using step_other [of j i d b] ev by simp
    with ih ev False show ?thesis by simp
  qed
qed

lemma rank_0: "rank t = 0 \<longleftrightarrow> is_Finished t"
  by (cases t) simp_all

lemma fair_all_done:
  assumes "fair (length codes) sched"
  shows "all_done (run_batch c codes sched w)"
proof -
  let ?b = "spawn c codes w"
  have "is_Finished (tasks (fold step sched ?b) ! j)" if j: "j < length codes" for j
  proof -
    have 4: "4 \<le> count_list (map fst sched) j"
      using assms j by (simp add: fair_def list_all_iff)
    have "rank (tasks (fold step sched ?b) ! j) \<le> rank (tasks ?b ! j) - count_list (map fst sched) j"
      by (rule fold_step_rank) (simp add: spawn_def j)
    also have "rank (tasks ?b ! j) = 4" using j by (simp add: spawn_def)
    finally show ?thesis using 4 by (simp add: rank_0)
  qed
  moreover have "length (tasks (fold step sched ?b)) = length codes"
    using run_batch_length [of c codes sched w] by (simp add: run_batch_def)
  ultimately show ?thesis
    by (simp add: all_done_def run_batch_def list_all_length)
qed

subsection \<open>The channel holds what the finished tasks sent\<close>







subsection \<open>The collecting loop\<close>





lemma run_batch_Nil:
  "run_batch c [] sched w =
     \<lparr>shared = c, env = fold (\<lambda>ev. elapse (snd ev)) sched w, tasks = [], chan = []\<rparr>"
proof -
  have "fold step sched \<lparr>shared = c, env = w, tasks = [], chan = []\<rparr> =
     \<lparr>shared = c, env = fold (\<lambda>ev. elapse (snd ev)) sched w, tasks = [], chan = []\<rparr>"
    by (induction sched arbitrary: w) (auto simp: step_def)
  then show ?thesis by (simp add: run_batch_def spawn_def)
qed

lemma fold_elapse:
  "invoked (fold (\<lambda>ev. elapse (snd ev)) sched w) = invoked w
   \<and> service (fold (\<lambda>ev. elapse (snd ev)) sched w) = service w"
  by (induction sched arbitrary: w) (simp_all add: elapse_def)

subsection \<open>Runs of the examples\<close>

lemmas run_defs = run_batch_def spawn_def step_def lookup_def call_service_def store_def
  elapse_def wrap_error_def time_Since_def minDuration_def maxDuration_def

lemma demo_abc_chan:
  "chan (run_batch demo_cache [''A'', ''B'', ''C''] demo_abc demo_world) =
     [\<lparr>rPrice = 10, Err = None\<rparr>,
      \<lparr>rPrice = 0, Err = Some ''getting price from service : no price''\<rparr>,
      \<lparr>rPrice = 10, Err = None\<rparr>]"
  by (simp add: demo_abc_def demo_defs run_defs)



lemma demo_abc_prices_B:
  "prices (shared (run_batch demo_cache [''A'', ''B'', ''C''] demo_abc demo_world)) ''B'' = None"
  by (simp add: demo_abc_def demo_defs run_defs)




subsection \<open>Claims about GetPricesFor\<close>



text \<open>
  Claim C7. \<open>GetPricesFor\<close> with no code returns no price and no error under
  every schedule; no task is launched, the cache is as before, and so are the service
  and the log of its calls: only time may have passed.
\<close>

theorem C7_empty_batch:
  "GetPricesFor c [] sched w = Some (([], None), c, fold (\<lambda>ev. elapse (snd ev)) sched w)
   \<and> GetPricesFor c [] [] w = Some (([], None), c, w)
   \<and> tasks (spawn c [] w) = []
   \<and> invoked (fold (\<lambda>ev. elapse (snd ev)) sched w) = invoked w
   \<and> service (fold (\<lambda>ev. elapse (snd ev)) sched w) = service w"
  by (simp add: GetPricesFor_def run_batch_Nil all_done_def fold_elapse spawn_def)



subsection \<open>Where the entries of the map come from\<close>

lemma in_set_updateD: "x \<in> set (xs[i := y]) \<Longrightarrow> x = y \<or> x \<in> set xs"
  using set_update_subset_insert [of xs i y] by auto

lemma batch_invI:
  assumes "invoked (env b) = invoked w @ ys"
    and "\<And>k v. prices (shared b) k = Some v \<Longrightarrow>
              prices c k = Some v \<or> (k, Price v, None) \<in> set ys"
    and "\<And>k. prices c k \<noteq> None \<Longrightarrow> prices (shared b) k \<noteq> None"
    and "\<And>k p. Store k p \<in> set (tasks b) \<Longrightarrow> (k, p, None) \<in> set ys"
  shows "batch_inv c w b"
  unfolding batch_inv_def using assms by (intro exI [where x = ys]) simp

lemma step_batch_inv:
  assumes "batch_inv c w b"
  shows "batch_inv c w (step (i, d) b)"
proof -
  from assms obtain ys where ys: "invoked (env b) = invoked w @ ys"
    and old: "\<And>k v. prices (shared b) k = Some v \<Longrightarrow>
              prices c k = Some v \<or> (k, Price v, None) \<in> set ys"
    and keep: "\<And>k. prices c k \<noteq> None \<Longrightarrow> prices (shared b) k \<noteq> None"
    and st: "\<And>k p. Store k p \<in> set (tasks b) \<Longrightarrow> (k, p, None) \<in> set ys"
    unfolding batch_inv_def by blast
  show ?thesis
  proof (cases rule: step_cases [of i b d])
    case idle
    show ?thesis unfolding idle(2)
      by (rule batch_invI [where ys = ys]) (use ys old keep st in \<open>auto simp: elapse_def\<close>)
  next
    case (hit k p)
    show ?thesis unfolding hit(4)
      by (rule batch_invI [where ys = ys])
         (use ys old keep st in \<open>auto simp: elapse_def dest: in_set_updateD\<close>)
  next
    case (miss k)
    show ?thesis unfolding miss(4)
      by (rule batch_invI [where ys = ys])
         (use ys old keep st in \<open>auto simp: elapse_def dest: in_set_updateD\<close>)
  next
    case (fail k price e s')
    show ?thesis unfolding fail(4)
      by (rule batch_invI [where ys = "ys @ [(k, price, Some e)]"])
         (use ys old keep st in \<open>auto dest: in_set_updateD\<close>)
  next
    case (ok k price s')
    show ?thesis unfolding ok(4)
      by (rule batch_invI [where ys = "ys @ [(k, price, None)]"])
         (use ys old keep st in \<open>auto dest: in_set_updateD\<close>)
  next
    case (store k p)
    have "Store k p \<in> set (tasks b)" using store(1,2) nth_mem by metis
    then have p: "(k, p, None) \<in> set ys" by (rule st)
    show ?thesis unfolding store(3)
      by (rule batch_invI [where ys = ys])
         (use ys old keep st p in \<open>auto simp: elapse_def store_def dest: in_set_updateD
            split: if_splits\<close>)
  next
    case (send r)
    show ?thesis unfolding send(3)
      by (rule batch_invI [where ys = ys])
         (use ys old keep st in \<open>auto simp: elapse_def dest: in_set_updateD\<close>)
  next
    case (finished r)
    show ?thesis unfolding finished(3)
      by (rule batch_invI [where ys = ys]) (use ys old keep st in \<open>auto simp: elapse_def\<close>)
  qed
qed

lemma run_batch_inv: "batch_inv c w (run_batch c codes sched w)"
proof -
  have "batch_inv c w (spawn c codes w)"
    by (rule batch_invI [where ys = "[]"]) (auto simp: spawn_def)
  then show ?thesis unfolding run_batch_def
    by (rule fold_step_invariant) (rule step_batch_inv)
qed

lemma GetPriceFor_store:
  assumes g: "GetPriceFor c ds k w = (r, c', w')"
  shows "(snd r \<noteq> None \<longrightarrow> c' = c)
     \<and> (\<forall>k'. prices c k' \<noteq> None \<longrightarrow> prices c' k' \<noteq> None)
     \<and> (\<forall>k'. prices c' k' \<noteq> prices c k' \<longrightarrow>
           k' = k \<and> snd r = None
           \<and> prices c' k = Some \<lparr>Price = fst r, CreatedAt = clock w'\<rparr>
           \<and> invoked w' = invoked w @ [(k, fst r, None)])
     \<and> (invoked w' = invoked w \<or> (\<exists>x. invoked w' = invoked w @ [x]))"
proof -
  obtain d1 d2 d3 where ds: "ds = (d1, d2, d3)" by (cases ds) auto
  show ?thesis
  proof (cases rule: GetPriceFor_cases [of c w d1 k d2 d3])
    case (hit p)
    with g ds show ?thesis by (auto simp: elapse_def)
  next
    case (fail price e s')
    with g ds show ?thesis by auto
  next
    case (ok price s')
    with g ds show ?thesis by (auto split: if_splits)
  qed
qed

text \<open>
  Claim C8. A new cache holds no entry. \<open>GetPriceFor\<close> and every step of the tasks of
  \<open>GetPricesFor\<close> keep the invariant that each entry holds the price of a logged
  successful call to the service for its code. No key is ever removed; a call that
  returns an error leaves the cache as it was; an entry changes only by the write of
  the price that the service just answered without error. What \<open>GetPricesFor\<close>
  returns is the cache and the world at the end of the run of its tasks.
\<close>

theorem C8_store_invariant:
  "store_inv (NewTransparentCache svc age) w0
   \<and> (store_inv c w \<and> GetPriceFor c ds k w = (r, c', w') \<longrightarrow>
        store_inv c' w'
        \<and> (\<forall>k'. prices c k' \<noteq> None \<longrightarrow> prices c' k' \<noteq> None)
        \<and> (snd r \<noteq> None \<longrightarrow> c' = c)
        \<and> (\<forall>k'. prices c' k' \<noteq> prices c k' \<longrightarrow>
              k' = k \<and> snd r = None
              \<and> prices c' k = Some \<lparr>Price = fst r, CreatedAt = clock w'\<rparr>
              \<and> invoked w' = invoked w @ [(k, fst r, None)]))
   \<and> (store_inv c w \<longrightarrow>
        store_inv (shared (run_batch c codes sched w)) (env (run_batch c codes sched w)))
   \<and> (\<forall>k'. prices c k' \<noteq> None \<longrightarrow> prices (shared (run_batch c codes sched w)) k' \<noteq> None)
   \<and> (\<exists>ys. invoked (env (run_batch c codes sched w)) = invoked w @ ys
         \<and> (\<forall>k' v. prices (shared (run_batch c codes sched w)) k' = Some v \<longrightarrow>
               prices c k' = Some v \<or> (k', Price v, None) \<in> set ys))
   \<and> (GetPricesFor c codes sched w = Some (res, c'', w'') \<longrightarrow>
        c'' = shared (run_batch c codes sched w) \<and> w'' = env (run_batch c codes sched w))"
proof -
  let ?b = "run_batch c codes sched w"
  have new: "store_inv (NewTransparentCache svc age) w0"
    by (simp add: store_inv_def NewTransparentCache_def)
  have one: "store_inv c' w'
        \<and> (\<forall>k'. prices c k' \<noteq> None \<longrightarrow> prices c' k' \<noteq> None)
        \<and> (snd r \<noteq> None \<longrightarrow> c' = c)
        \<and> (\<forall>k'. prices c' k' \<noteq> prices c k' \<longrightarrow>
              k' = k \<and> snd r = None
              \<and> prices c' k = Some \<lparr>Price = fst r, CreatedAt = clock w'\<rparr>
              \<and> invoked w' = invoked w @ [(k, fst r, None)])"
    if inv: "store_inv c w" and g: "GetPriceFor c ds k w = (r, c', w')"
  proof -
    note s = GetPriceFor_store [OF g]
    have "store_inv c' w'" unfolding store_inv_def
    proof (intro allI impI)
      fix k' v
      assume e: "prices c' k' = Some v"
      show "(k', Price v, None) \<in> set (invoked w')"
      proof (cases "prices c' k' = prices c k'")
        case True
        with e inv have "(k', Price v, None) \<in> set (invoked w)" by (simp add: store_inv_def)
        with s show ?thesis by auto
      next
        case False
        with s have "k' = k" "prices c' k = Some \<lparr>Price = fst r, CreatedAt = clock w'\<rparr>"
          "invoked w' = invoked w @ [(k, fst r, None)]" by blast+
        with e show ?thesis by auto
      qed
    qed
    with s show ?thesis by blast
  qed
  from run_batch_inv [of c w codes sched] obtain ys where
    ys: "invoked (env ?b) = invoked w @ ys"
    and old: "\<forall>k v. prices (shared ?b) k = Some v \<longrightarrow>
              prices c k = Some v \<or> (k, Price v, None) \<in> set ys"
    and keep: "\<forall>k. prices c k \<noteq> None \<longrightarrow> prices (shared ?b) k \<noteq> None"
    unfolding batch_inv_def by blast
  have batch: "store_inv (shared ?b) (env ?b)" if inv: "store_inv c w"
    unfolding store_inv_def
  proof (intro allI impI)
    fix k v
    assume "prices (shared ?b) k = Some v"
    with old have "prices c k = Some v \<or> (k, Price v, None) \<in> set ys" by blast
    with inv ys show "(k, Price v, None) \<in> set (invoked (env ?b))"
      by (auto simp: store_inv_def)
  qed
  have ex: "\<exists>ys. invoked (env ?b) = invoked w @ ys
         \<and> (\<forall>k' v. prices (shared ?b) k' = Some v \<longrightarrow>
               prices c k' = Some v \<or> (k', Price v, None) \<in> set ys)"
    using ys old by blast
  have ret: "c'' = shared ?b \<and> w'' = env ?b"
    if "GetPricesFor c codes sched w = Some (res, c'', w'')"
    using that by (auto simp: GetPricesFor_def Let_def split: if_splits option.splits)
  from new one batch keep ex ret show ?thesis by blast
qed

lemma demo_abc_env:
  "invoked (env (run_batch demo_cache [''A'', ''B'', ''C''] demo_abc demo_world)) =
     [(''A'', 10, None), (''B'', 7, Some ''no price''), (''C'', 10, None)]"
  by (simp add: demo_abc_def demo_defs run_defs)

lemma demo_abc_done:
  "all_done (run_batch demo_cache [''A'', ''B'', ''C''] demo_abc demo_world)"
proof (rule fair_all_done)
  have "fair 3 demo_abc" by (simp add: fair_def demo_abc_def upt_rec)
  moreover have "length [''A'', ''B'', ''C''] = 3" by simp
  ultimately show "fair (length [''A'', ''B'', ''C'']) demo_abc" by (simp only:)
qed

lemma demo_abc_result:
  "GetPricesFor demo_cache [''A'', ''B'', ''C''] demo_abc demo_world =
     Some (([10], Some ''getting price from service : no price''),
           shared (run_batch demo_cache [''A'', ''B'', ''C''] demo_abc demo_world),
           env (run_batch demo_cache [''A'', ''B'', ''C''] demo_abc demo_world))"
  using demo_abc_done by (simp add: GetPricesFor_def Let_def demo_abc_chan)

theorem C8_store_invariant_witness:
  "store_inv demo_cache demo_world
   \<and> GetPriceFor demo_cache (1, 2, 3) ''A'' demo_world = ((10, None), demo_cache_A, demo_world_A)
   \<and> store_inv demo_cache_A demo_world_A
   \<and> prices demo_cache_A ''A'' = Some \<lparr>Price = 10, CreatedAt = 1006\<rparr>
   \<and> GetPricesFor demo_cache [''A'', ''B'', ''C''] demo_abc demo_world =
       Some (([10], Some ''getting price from service : no price''),
             shared (run_batch demo_cache [''A'', ''B'', ''C''] demo_abc demo_world),
             env (run_batch demo_cache [''A'', ''B'', ''C''] demo_abc demo_world))
   \<and> store_inv (shared (run_batch demo_cache [''A'', ''B'', ''C''] demo_abc demo_world))
        (env (run_batch demo_cache [''A'', ''B'', ''C''] demo_abc demo_world))
   \<and> invoked (env (run_batch demo_cache [''A'', ''B'', ''C''] demo_abc demo_world)) =
       [(''A'', 10, None), (''B'', 7, Some ''no price''), (''C'', 10, None)]
   \<and> prices (shared (run_batch demo_cache [''A'', ''B'', ''C''] demo_abc demo_world)) ''B'' = None"
proof -
  let ?b = "run_batch demo_cache [''A'', ''B'', ''C''] demo_abc demo_world"
  note C8 = C8_store_invariant [where c = demo_cache and w = demo_world and ds = "(1, 2, 3)"
      and k = "''A''" and r = "(10, None)" and c' = demo_cache_A and w' = demo_world_A
      and codes = "[''A'', ''B'', ''C'']" and sched = demo_abc
      and svc = demo_service and age = 60 and ?w0.0 = demo_world
      and res = "([10], Some ''getting price from service : no price'')"
      and c'' = "shared ?b" and w'' = "env ?b"]
  have a: "store_inv demo_cache demo_world" using C8 by (simp add: demo_cache_def)
  have b: "store_inv demo_cache_A demo_world_A" using C8 a demo_first_call by blast
  have c: "store_inv (shared ?b) (env ?b)" using C8 a by blast
  have d: "prices demo_cache_A ''A'' = Some \<lparr>Price = 10, CreatedAt = 1006\<rparr>"
    by (simp add: demo_defs store_def)
  from a b c d demo_first_call demo_abc_result demo_abc_env demo_abc_prices_B
  show ?thesis by simp
qed

subsection \<open>Batches against a service that is a function of the code\<close>











subsection \<open>A run that completes in reverse order\<close>









subsection \<open>No entry is stamped in the future\<close>

lemma New_timestamps_ok: "timestamps_ok (NewTransparentCache svc age) w"
  by (simp add: timestamps_ok_def NewTransparentCache_def)

lemma timestamps_ok_later:
  "timestamps_ok c w \<Longrightarrow> prices c' = prices c \<Longrightarrow> clock w \<le> clock w' \<Longrightarrow> timestamps_ok c' w'"
  unfolding timestamps_ok_def by (metis order_trans)

lemma timestamps_ok_store:
  assumes "timestamps_ok c w" and "clock w \<le> t"
  shows "timestamps_ok (store c k p t) (w'\<lparr>clock := t\<rparr>)"
  unfolding timestamps_ok_def
proof (intro allI impI)
  fix k' v
  assume e: "prices (store c k p t) k' = Some v"
  show "CreatedAt v \<le> clock (w'\<lparr>clock := t\<rparr>)"
  proof (cases "k' = k")
    case True
    with e show ?thesis by (auto simp: store_def)
  next
    case False
    with e have "prices c k' = Some v" by (simp add: store_def)
    with assms(1) have "CreatedAt v \<le> clock w" by (simp add: timestamps_ok_def)
    with assms(2) show ?thesis by simp
  qed
qed

lemma step_timestamps_ok:
  assumes t: "timestamps_ok (shared b) (env b)"
  shows "timestamps_ok (shared (step (i, d) b)) (env (step (i, d) b))"
proof (cases rule: step_cases [of i b d])
  case idle
  show ?thesis unfolding idle(2)
    by (rule timestamps_ok_later [OF t]) (simp_all add: elapse_def)
next
  case (hit k p)
  show ?thesis unfolding hit(4)
    by (rule timestamps_ok_later [OF t]) (simp_all add: elapse_def)
next
  case (miss k)
  show ?thesis unfolding miss(4)
    by (rule timestamps_ok_later [OF t]) (simp_all add: elapse_def)
next
  case (fail k price e s')
  show ?thesis unfolding fail(4)
    by (rule timestamps_ok_later [OF t]) simp_all
next
  case (ok k price s')
  show ?thesis unfolding ok(4)
    by (rule timestamps_ok_later [OF t]) simp_all
next
  case (store k p)
  have "timestamps_ok (store (shared b) k p (clock (env b) + int d))
          ((env b)\<lparr>clock := clock (env b) + int d\<rparr>)"
    by (rule timestamps_ok_store [OF t]) simp
  then show ?thesis unfolding store(3) by (simp add: elapse_def)
next
  case (send r)
  show ?thesis unfolding send(3)
    by (rule timestamps_ok_later [OF t]) (simp_all add: elapse_def)
next
  case (finished r)
  show ?thesis unfolding finished(3)
    by (rule timestamps_ok_later [OF t]) (simp_all add: elapse_def)
qed

lemma run_batch_timestamps_ok:
  fixes c :: "('p::zero, 's) TransparentCache"
  assumes "timestamps_ok c w"
  shows "timestamps_ok (shared (run_batch c codes sched w)) (env (run_batch c codes sched w))"
proof -
  have "timestamps_ok (shared (spawn c codes w)) (env (spawn c codes w))"
    using assms by (simp add: spawn_def)
  then show ?thesis unfolding run_batch_def
    by (rule fold_step_invariant [where I = "\<lambda>b. timestamps_ok (shared b) (env b)"])
       (rule step_timestamps_ok)
qed

subsection \<open>A task that runs alone is a call of GetPriceFor\<close>

lemma task_alone_is_GetPriceFor:
  assumes i: "i < length (tasks b)" and s: "tasks b ! i = Start k"
    and g: "GetPriceFor (shared b) (d1, d2, d3) k (env b) = ((p, e), c', w')"
  shows "\<exists>n\<le>3. fold step (take n [(i, d1), (i, d2), (i, d3)]) b =
           b\<lparr>shared := c', env := w', tasks := (tasks b)[i := Send \<lparr>rPrice = p, Err = e\<rparr>]\<rparr>"
proof (cases rule: GetPriceFor_cases [of "shared b" "env b" d1 k d2 d3])
  case (hit q)
  have "fold step (take 1 [(i, d1), (i, d2), (i, d3)]) b =
      b\<lparr>shared := c', env := w', tasks := (tasks b)[i := Send \<lparr>rPrice = p, Err = e\<rparr>]\<rparr>"
    using step_hit [OF i s hit(1)] hit(2) g by simp
  then show ?thesis by (intro exI [where x = 1]) simp
next
  case (fail price e' s')
  define b1 where "b1 = step (i, d1) b"
  have b1: "b1 = b\<lparr>env := elapse d1 (env b), tasks := (tasks b)[i := Fetch k]\<rparr>"
    unfolding b1_def by (rule step_miss [OF i s fail(1)])
  have "step (i, d2) b1 =
      b1\<lparr>env := (env b1)\<lparr>service := s', clock := clock (env b1) + int d2,
                       invoked := invoked (env b1) @ [(k, price, Some e')]\<rparr>,
         tasks := (tasks b1)[i := Send \<lparr>rPrice = 0, Err = Some (wrap_error e')\<rparr>]\<rparr>"
    by (rule step_fail) (use i fail(2) in \<open>simp_all add: b1 elapse_def\<close>)
  then have "fold step (take 2 [(i, d1), (i, d2), (i, d3)]) b =
      b\<lparr>shared := c', env := w', tasks := (tasks b)[i := Send \<lparr>rPrice = p, Err = e\<rparr>]\<rparr>"
    using fail(3) g by (simp add: b1_def [symmetric] numeral_2_eq_2) (simp add: b1 elapse_def)
  then show ?thesis by (intro exI [where x = 2]) simp
next
  case (ok price s')
  define b1 where "b1 = step (i, d1) b"
  define b2 where "b2 = step (i, d2) b1"
  have b1: "b1 = b\<lparr>env := elapse d1 (env b), tasks := (tasks b)[i := Fetch k]\<rparr>"
    unfolding b1_def by (rule step_miss [OF i s ok(1)])
  have b2: "b2 =
      b1\<lparr>env := (env b1)\<lparr>service := s', clock := clock (env b1) + int d2,
                       invoked := invoked (env b1) @ [(k, price, None)]\<rparr>,
         tasks := (tasks b1)[i := Store k price]\<rparr>"
    unfolding b2_def by (rule step_ok) (use i ok(2) in \<open>simp_all add: b1 elapse_def\<close>)
  have "step (i, d3) b2 =
       b2\<lparr>shared := store (shared b2) k price (clock (env b2) + int d3),
         env := elapse d3 (env b2),
         tasks := (tasks b2)[i := Send \<lparr>rPrice = price, Err = None\<rparr>]\<rparr>"
    by (rule step_store) (use i in \<open>simp_all add: b2 b1\<close>)
  then have "fold step (take 3 [(i, d1), (i, d2), (i, d3)]) b =
      b\<lparr>shared := c', env := w', tasks := (tasks b)[i := Send \<lparr>rPrice = p, Err = e\<rparr>]\<rparr>"
    using ok(3) g
    by (simp add: b1_def [symmetric] b2_def [symmetric]) (simp add: b2 b1 elapse_def store_def)
  then show ?thesis by (intro exI [where x = 3]) simp
qed

end
